theory Spec2Isabelle
  imports Main "HOL-Library.AList"
begin

section \<open>Credential rotation in \<open>image_generator.py\<close>\<close>

text \<open>
  The development embeds \<open>src/image_generator.py\<close>: the keyword test that both
  exception handlers apply to an error text, the health probe \<open>test_api_key\<close>, the
  production loop \<open>generate_with_key\<close> and the rotation loop of \<open>main\<close> with
  \<open>load_progress\<close> and \<open>save_progress\<close>.

  What the program receives from outside is data of the model: the texts of the errors the
  provider raises, the parts of every response, and the content of \<open>progress.json\<close> at
  start. Counters are natural numbers (they start at 0 and only grow). An error text is a
  byte string; \<open>str.lower\<close> is modelled on the ASCII letters, which are the only characters
  the five keywords can match. The numbering of the image files and the \<open>last_updated\<close>
  time stamp do not influence control flow and are left out. Of the log lines, three of
  \<open>generate_with_key\<close> are kept, which tell why and when its state changed.

  An error reaches the handler of line 207 from each statement of the \<open>try\<close> block that
  can raise on its own: the creation of the client, the production run (when an error
  leaves \<open>generate_with_key\<close>), \<open>save_progress\<close>, and the report of lines 204 and 205.
  The log lines of the probe (68, 183), of the skip (174) and of the handler itself (208)
  are taken to succeed.
\<close>

subsection \<open>Error texts and the keyword test\<close>

definition lower_char :: "char \<Rightarrow> char" where
  "lower_char c =
     (let n = (of_char c :: nat) in if 65 \<le> n \<and> n \<le> 90 then char_of (n + 32) else c)"

definition lower :: "string \<Rightarrow> string" where
  "lower s = map lower_char s"

text \<open>\<open>starts_with kw s\<close>: \<open>s.startswith(kw)\<close>; \<open>contains kw s\<close>: Python's \<open>kw in s\<close>.\<close>

fun starts_with :: "string \<Rightarrow> string \<Rightarrow> bool" where
  "starts_with [] s = True"
| "starts_with (k # ks) [] = False"
| "starts_with (k # ks) (c # cs) = (k = c \<and> starts_with ks cs)"

fun contains :: "string \<Rightarrow> string \<Rightarrow> bool" where
  "contains kw [] = (kw = [])"
| "contains kw (c # cs) = (starts_with kw (c # cs) \<or> contains kw cs)"

text \<open>The list of lines 65 and 129, in the order it is written there.\<close>

definition quota_keywords :: "string list" where
  "quota_keywords = [''quota'', ''limit'', ''rate'', ''exceeded'', ''429'']"

text \<open>
  \<open>any(keyword in error_msg for keyword in [...])\<close> with \<open>error_msg = str(e).lower()\<close>.
\<close>

definition quota_signal :: "string \<Rightarrow> bool" where
  "quota_signal msg = list_ex (\<lambda>keyword. contains keyword (lower msg)) quota_keywords"

datatype failure_kind = QuotaExhausted | Transient

text \<open>
  The kind of failure the handler of \<open>generate_with_key\<close> acts on: the first test of
  lines 129 to 131 leaves the loop for good, every other error is counted and retried.
\<close>

definition classify :: "string \<Rightarrow> failure_kind" where
  "classify msg = (if quota_signal msg then QuotaExhausted else Transient)"

subsection \<open>The health probe\<close>

text \<open>
  The probe request either returns (\<open>None\<close>) or raises an error with a text
  (\<open>Some msg\<close>). \<open>test_api_key\<close> is \<open>False\<close> only for an error with a keyword.
\<close>

definition test_api_key :: "string option \<Rightarrow> bool" where
  "test_api_key probe_call =
     (case probe_call of
        None \<Rightarrow> True
      | Some msg \<Rightarrow> if quota_signal msg then False else True)"

subsection \<open>The production loop\<close>

text \<open>
  One part of a response: a text part, an image part whose bytes are saved, a part with
  neither, or a part at which the processing of the response raises (the image cannot be
  opened or written, ...). A response whose \<open>candidates[0].content.parts\<close> cannot be read
  raises the same way before any part, and is \<open>Returns [Faulty msg]\<close>.
\<close>

datatype part = TextPart | ImagePart | EmptyPart | Faulty string

text \<open>What one call of \<open>client.models.generate_content\<close> does.\<close>

datatype outcome = Raises string | Returns "part list"

text \<open>
  The calls of \<open>time.sleep\<close> and three of the log lines, in the order the loop makes them:
  \<open>Pause\<close> is line 87, \<open>Penalty\<close> line 139, \<open>LogIncrease\<close> line 85 (new delay, requests
  made), \<open>LogExhausted\<close> line 130 and \<open>LogGaveUp\<close> line 135.
\<close>

datatype gen_event =
    Pause nat
  | Penalty nat
  | LogIncrease nat nat
  | LogExhausted nat
  | LogGaveUp nat

record gen_state =
  images_generated :: nat
  consecutive_errors :: nat
  sleep_time :: nat
  requests_made :: nat
  gen_log :: "gen_event list"

definition gen_init :: gen_state where
  "gen_init = \<lparr>images_generated = 0, consecutive_errors = 0, sleep_time = 8,
     requests_made = 0, gen_log = []\<rparr>"

text \<open>
  The \<open>for part in ...\<close> loop of lines 101 to 115 on the pair
  \<open>(images_generated, image_saved)\<close>. An error leaves the loop with what was counted so
  far.
\<close>

fun process_parts :: "part list \<Rightarrow> nat \<times> bool \<Rightarrow> (nat \<times> bool) \<times> string option" where
  "process_parts [] (n, saved) = ((n, saved), None)"
| "process_parts (TextPart # ps) (n, saved) = process_parts ps (n, saved)"
| "process_parts (ImagePart # ps) (n, saved) = process_parts ps (Suc n, True)"
| "process_parts (EmptyPart # ps) (n, saved) = process_parts ps (n, saved)"
| "process_parts (Faulty msg # ps) (n, saved) = ((n, saved), Some msg)"

text \<open>Lines 83 to 87: the escalation by request count, then the pause.\<close>

definition before_call :: "gen_state \<Rightarrow> gen_state" where
  "before_call s =
     (let s1 = (if requests_made s > 0 \<and> requests_made s mod 15 = 0
                then s\<lparr>sleep_time := sleep_time s + 7,
                       gen_log := gen_log s @ [LogIncrease (sleep_time s + 7) (requests_made s)]\<rparr>
                else s)
      in s1\<lparr>gen_log := gen_log s1 @ [Pause (sleep_time s1)]\<rparr>)"

text \<open>
  The handler of lines 122 to 139. The flag of the result tells whether the \<open>while\<close> loop
  goes on (\<open>False\<close> is \<open>break\<close>).
\<close>

definition on_error :: "string \<Rightarrow> gen_state \<Rightarrow> gen_state \<times> bool" where
  "on_error msg s =
     (let s1 = s\<lparr>consecutive_errors := consecutive_errors s + 1\<rparr> in
      if quota_signal msg
      then (s1\<lparr>gen_log := gen_log s1 @ [LogExhausted (images_generated s1)]\<rparr>, False)
      else if consecutive_errors s1 \<ge> 5
      then (s1\<lparr>gen_log := gen_log s1 @ [LogGaveUp (consecutive_errors s1)]\<rparr>, False)
      else (s1\<lparr>gen_log := gen_log s1 @ [Penalty (min 60 (sleep_time s1 * 2))]\<rparr>, True))"

text \<open>One run of the body of the \<open>while\<close> loop, on the outcome of its call.\<close>

definition gen_iter :: "outcome \<Rightarrow> gen_state \<Rightarrow> gen_state \<times> bool" where
  "gen_iter oc s =
     (let s1 = before_call s in
      case oc of
        Raises msg \<Rightarrow> on_error msg s1
      | Returns parts \<Rightarrow>
          (let s2 = s1\<lparr>requests_made := requests_made s1 + 1\<rparr>;
               ((n, image_saved), err) = process_parts parts (images_generated s2, False);
               s3 = s2\<lparr>images_generated := n\<rparr>
           in case err of
                Some msg \<Rightarrow> on_error msg s3
              | None \<Rightarrow>
                  (if image_saved then s3\<lparr>consecutive_errors := 0\<rparr> else s3, True)))"

text \<open>
  The \<open>while\<close> loop of line 80 on the outcomes of its calls, in order. The loop makes a
  call whenever the count is below the ceiling, so a list that ends while the loop still
  runs does not tell the result: \<open>None\<close>. Outcomes after the end of the loop are not used.
\<close>

fun gen_loop :: "nat \<Rightarrow> outcome list \<Rightarrow> gen_state \<Rightarrow> gen_state option" where
  "gen_loop max_images_per_key [] s =
     (if images_generated s < max_images_per_key then None else Some s)"
| "gen_loop max_images_per_key (oc # ocs) s =
     (if images_generated s < max_images_per_key
      then (case gen_iter oc s of
              (s', True) \<Rightarrow> gen_loop max_images_per_key ocs s'
            | (s', False) \<Rightarrow> Some s')
      else Some s)"

text \<open>\<open>generate_with_key\<close> returns \<open>images_generated\<close>.\<close>

definition generate_with_key :: "nat \<Rightarrow> outcome list \<Rightarrow> nat option" where
  "generate_with_key max_images_per_key calls =
     map_option images_generated (gen_loop max_images_per_key calls gen_init)"

text \<open>What the same run slept and logged.\<close>

definition generate_log :: "nat \<Rightarrow> outcome list \<Rightarrow> gen_event list option" where
  "generate_log max_images_per_key calls =
     map_option gen_log (gen_loop max_images_per_key calls gen_init)"

subsection \<open>The checkpoint and the rotation loop\<close>

text \<open>
  The dictionary of \<open>load_progress\<close> and \<open>save_progress\<close>. \<open>images_per_key\<close> is a
  dictionary from key names to counts, kept as an association list in insertion order
  (\<open>AList.update\<close> overwrites the entry of a key that is present and appends one that is
  not, as the assignment \<open>d[k] = v\<close> does). \<open>exhausted_keys\<close> is a list.
\<close>

record progress =
  current_key_index :: nat
  total_images_generated :: nat
  images_per_key :: "(string \<times> nat) list"
  exhausted_keys :: "string list"

text \<open>
  \<open>load_progress\<close> on the content of \<open>progress.json\<close>: \<open>None\<close> is a file that is
  missing or cannot be parsed, which gives the defaults.
\<close>

definition load_progress :: "progress option \<Rightarrow> progress" where
  "load_progress file =
     (case file of
        Some p \<Rightarrow> p
      | None \<Rightarrow> \<lparr>current_key_index = 0, total_images_generated = 0,
                  images_per_key = [], exhausted_keys = []\<rparr>)"

text \<open>\<open>str(n)\<close> for a natural number, and the name \<open>f"key_{i+1}"\<close> of line 170.\<close>

definition digit_char :: "nat \<Rightarrow> char" where
  "digit_char d = char_of (48 + d)"

function str_nat :: "nat \<Rightarrow> string" where
  "str_nat n = (if n < 10 then [digit_char n] else str_nat (n div 10) @ [digit_char (n mod 10)])"
  by pat_completeness auto
termination
  by (relation "measure id") auto

declare str_nat.simps [simp del]

definition key_name :: "nat \<Rightarrow> string" where
  "key_name i = ''key_'' @ str_nat (i + 1)"

text \<open>
  What \<open>save_progress\<close> does at line 200: it writes the file, or it raises. When it
  raises, the flag tells whether \<open>progress.json\<close> had been opened for writing by then, which
  leaves a file that cannot be parsed; otherwise the file is as it was.
\<close>

datatype save_outcome = Saved | SaveRaised string bool

text \<open>
  What the outside does for the credential at one position of \<open>all_keys\<close>: whether
  \<open>genai.Client(api_key=key)\<close> raises (\<open>Some msg\<close>), what the probe request does, whether
  an error leaves \<open>generate_with_key\<close> instead of a count (one of its log lines outside its
  own \<open>try\<close> fails), the outcomes of the production calls, what \<open>save_progress\<close> does, and
  whether \<open>os.listdir\<close> or the log line after it raises (lines 204 and 205).
\<close>

record cred_env =
  client_error :: "string option"
  probe_call :: "string option"
  run_error :: "string option"
  calls :: "outcome list"
  save_call :: save_outcome
  report_error :: "string option"

text \<open>
  What \<open>main\<close> did, in order: a credential skipped at line 173, the handler of line 207
  entered, the result of the probe, the count a production run returned, and the
  dictionary \<open>save_progress\<close> wrote.
\<close>

datatype event =
    Skipped nat
  | FatalError nat string
  | Probed nat bool
  | Ran nat nat
  | Wrote progress

text \<open>
  The state of \<open>main\<close>: the dictionary \<open>progress\<close> in memory, the content of
  \<open>progress.json\<close>, and what happened so far.
\<close>

record run_state =
  prog :: progress
  checkpoint :: "progress option"
  events :: "event list"

definition mark_exhausted :: "string \<Rightarrow> progress \<Rightarrow> progress" where
  "mark_exhausted key p = p\<lparr>exhausted_keys := exhausted_keys p @ [key]\<rparr>"

text \<open>
  Lines 192 to 198: the update of the dictionary after a production run that returned
  \<open>n\<close>, for the credential \<open>key\<close> at position \<open>i\<close>.
\<close>

definition after_run :: "string \<Rightarrow> nat \<Rightarrow> nat \<Rightarrow> progress \<Rightarrow> progress" where
  "after_run key i n p =
     (let p1 = p\<lparr>current_key_index := i,
                  total_images_generated := total_images_generated p + n,
                  images_per_key := AList.update (key_name i) n (images_per_key p)\<rparr>
      in if n < 50 then mark_exhausted key p1 else p1)"

text \<open>
  The handler of lines 207 to 210, for an error with the text \<open>msg\<close>: the key is appended to
  the exhausted keys and the loop goes on. Nothing is written.
\<close>

definition handler :: "string \<Rightarrow> nat \<Rightarrow> string \<Rightarrow> run_state \<Rightarrow> run_state" where
  "handler key i msg st =
     st\<lparr>prog := mark_exhausted key (prog st), events := events st @ [FatalError i msg]\<rparr>"

text \<open>
  Lines 192 to 205 for a production run that returned \<open>n\<close>: the dictionary in memory is
  updated, \<open>save_progress\<close> writes its four entries as they are then, and the files are
  counted and reported. An error of \<open>save_progress\<close> or of the report enters the handler,
  with the dictionary in memory already updated.
\<close>

definition record_run :: "string \<Rightarrow> nat \<Rightarrow> nat \<Rightarrow> cred_env \<Rightarrow> run_state \<Rightarrow> run_state" where
  "record_run key i n e st =
     (let p' = after_run key i n (prog st);
          st1 = st\<lparr>prog := p', events := events st @ [Ran i n]\<rparr>
      in case save_call e of
           SaveRaised msg clobbered \<Rightarrow>
             handler key i msg
               (st1\<lparr>checkpoint := (if clobbered then None else checkpoint st1)\<rparr>)
         | Saved \<Rightarrow>
             (let st2 = st1\<lparr>checkpoint := Some p', events := events st1 @ [Wrote p']\<rparr>
              in case report_error e of
                   Some msg \<Rightarrow> handler key i msg st2
                 | None \<Rightarrow> st2))"

text \<open>
  The body of the \<open>for\<close> loop of line 168 for position \<open>i\<close> (with \<open>i < len(all_keys)\<close>,
  as \<open>range\<close> gives it). \<open>generate_with_key\<close> is called with its default ceiling of 500.
  The result is \<open>None\<close> when the outcomes given for the production run do not end it.
\<close>

definition process_key :: "string list \<Rightarrow> (nat \<Rightarrow> cred_env) \<Rightarrow> nat \<Rightarrow> run_state \<Rightarrow> run_state option" where
  "process_key all_keys env i st =
     (let key = all_keys ! i; p = prog st in
      if key \<in> set (exhausted_keys p)
      then Some (st\<lparr>events := events st @ [Skipped i]\<rparr>)
      else
        (case client_error (env i) of
           Some msg \<Rightarrow> Some (handler key i msg st)
         | None \<Rightarrow>
             if \<not> test_api_key (probe_call (env i))
             then Some (st\<lparr>prog := mark_exhausted key p, events := events st @ [Probed i False]\<rparr>)
             else
               (let st1 = st\<lparr>events := events st @ [Probed i True]\<rparr>
                in case run_error (env i) of
                     Some msg \<Rightarrow> Some (handler key i msg st1)
                   | None \<Rightarrow>
                       (case generate_with_key 500 (calls (env i)) of
                          None \<Rightarrow> None
                        | Some n \<Rightarrow> Some (record_run key i n (env i) st1)))))"

text \<open>The \<open>for\<close> loop over the positions that \<open>range\<close> produced.\<close>

fun main_loop :: "string list \<Rightarrow> (nat \<Rightarrow> cred_env) \<Rightarrow> nat list \<Rightarrow> run_state \<Rightarrow> run_state option" where
  "main_loop all_keys env [] st = Some st"
| "main_loop all_keys env (i # is) st =
     (case process_key all_keys env i st of
        None \<Rightarrow> None
      | Some st' \<Rightarrow> main_loop all_keys env is st')"

text \<open>
  \<open>main\<close> from line 159 on, for the keys of \<open>GEN_KEYS\<close> and the content of
  \<open>progress.json\<close> at start.
\<close>

definition main :: "string list \<Rightarrow> (nat \<Rightarrow> cred_env) \<Rightarrow> progress option \<Rightarrow> run_state option" where
  "main all_keys env file =
     (let progress = load_progress file in
      main_loop all_keys env [current_key_index progress ..< length all_keys]
        \<lparr>prog = progress, checkpoint = file, events = []\<rparr>)"

text \<open>The dictionaries a run wrote, oldest first.\<close>

fun writes :: "event list \<Rightarrow> progress list" where
  "writes [] = []"
| "writes (Wrote p # es) = p # writes es"
| "writes (e # es) = writes es"

subsection \<open>Reading a run\<close>

text \<open>The number of image parts of a response, and the error a call ends in, if any.\<close>

fun is_image :: "part \<Rightarrow> bool" where
  "is_image ImagePart = True"
| "is_image p = False"

definition artifacts :: "outcome \<Rightarrow> nat" where
  "artifacts oc = (case oc of Raises msg \<Rightarrow> 0 | Returns ps \<Rightarrow> length (filter is_image ps))"

fun failure :: "outcome \<Rightarrow> string option" where
  "failure (Raises msg) = Some msg"
| "failure (Returns ps) = snd (process_parts ps (0, False))"

text \<open>The delays of line 87 and those of line 139 in a log, in order.\<close>

fun pauses :: "gen_event list \<Rightarrow> nat list" where
  "pauses [] = []"
| "pauses (Pause d # es) = d # pauses es"
| "pauses (e # es) = pauses es"

fun penalties :: "gen_event list \<Rightarrow> nat list" where
  "penalties [] = []"
| "penalties (Penalty d # es) = d # penalties es"
| "penalties (e # es) = penalties es"

text \<open>\<open>sum(images_per_key.values())\<close>.\<close>

definition sum_counts :: "progress \<Rightarrow> nat" where
  "sum_counts p = sum_list (map snd (images_per_key p))"

text \<open>
  An environment in which the client is created, the probe request returns, and nothing but
  the production calls raises.
\<close>

definition healthy :: "outcome list \<Rightarrow> cred_env" where
  "healthy ocs = \<lparr>client_error = None, probe_call = None, run_error = None, calls = ocs,
     save_call = Saved, report_error = None\<rparr>"


definition probe_fails :: "string \<Rightarrow> cred_env" where
  "probe_fails msg = (healthy [])\<lparr>probe_call := Some msg\<rparr>"

text \<open>The environment that answers for position \<open>i\<close> as the \<open>i\<close>-th entry of a list.\<close>

definition env_of :: "cred_env list \<Rightarrow> nat \<Rightarrow> cred_env" where
  "env_of es i = (if i < length es then es ! i else healthy [])"



text \<open>The state in which the \<open>for\<close> loop starts.\<close>

definition start_state :: "progress option \<Rightarrow> run_state" where
  "start_state file = \<lparr>prog = load_progress file, checkpoint = file, events = []\<rparr>"

text \<open>
  Where the entries of a dictionary \<open>p\<close> come from, for the dictionary \<open>p0\<close> that was
  loaded: the exhausted keys are those of \<open>p0\<close> or elements of \<open>all_keys\<close>, the names in
  \<open>images_per_key\<close> are those of \<open>p0\<close> or the names of positions.
\<close>

definition entries_from :: "string list \<Rightarrow> progress \<Rightarrow> progress \<Rightarrow> bool" where
  "entries_from all_keys p0 p \<longleftrightarrow>
     set (exhausted_keys p) \<subseteq> set (exhausted_keys p0) \<union> set all_keys
     \<and> fst ` set (images_per_key p) \<subseteq>
         fst ` set (images_per_key p0) \<union> key_name ` {..< length all_keys}"

text \<open>The sum invariant of a dictionary.\<close>

definition tally_ok :: "progress \<Rightarrow> bool" where
  "tally_ok p \<longleftrightarrow> sum_counts p = total_images_generated p"

text \<open>Reading a decimal numeral back, the inverse of \<open>str_nat\<close>.\<close>

definition digit_val :: "char \<Rightarrow> nat" where
  "digit_val c = of_char c - 48"

definition int_of_str :: "string \<Rightarrow> nat" where
  "int_of_str s = foldl (\<lambda>a c. 10 * a + digit_val c) 0 s"

section \<open>Properties\<close>

subsection \<open>Substring test\<close>

lemma starts_with_iff: "starts_with kw s \<longleftrightarrow> (\<exists>q. s = kw @ q)"
  by (induction kw s rule: starts_with.induct) auto

lemma contains_iff: "contains kw s \<longleftrightarrow> (\<exists>p q. s = p @ kw @ q)"
proof (induction s)
  case Nil
  then show ?case by simp
next
  case (Cons c cs)
  show ?case
  proof
    assume "contains kw (c # cs)"
    then consider "starts_with kw (c # cs)" | "contains kw cs" by auto
    then show "\<exists>p q. c # cs = p @ kw @ q"
    proof cases
      case 1
      then obtain q where "c # cs = kw @ q" by (auto simp: starts_with_iff)
      then have "c # cs = [] @ kw @ q" by simp
      then show ?thesis by blast
    next
      case 2
      then obtain p q where "cs = p @ kw @ q" using Cons.IH by blast
      then have "c # cs = (c # p) @ kw @ q" by simp
      then show ?thesis by blast
    qed
  next
    assume "\<exists>p q. c # cs = p @ kw @ q"
    then obtain p q where pq: "c # cs = p @ kw @ q" by blast
    show "contains kw (c # cs)"
    proof (cases p)
      case Nil
      with pq have "starts_with kw (c # cs)" by (auto simp: starts_with_iff)
      then show ?thesis by simp
    next
      case (Cons a p')
      with pq have "cs = p' @ kw @ q" by simp
      then have "contains kw cs" using Cons.IH by blast
      then show ?thesis by simp
    qed
  qed
qed

lemma quota_signal_iff:
  "quota_signal msg \<longleftrightarrow>
     (\<exists>kw \<in> {''quota'', ''limit'', ''rate'', ''exceeded'', ''429''}. \<exists>p q. lower msg = p @ kw @ q)"
  unfolding quota_signal_def quota_keywords_def list_ex_iff contains_iff by simp

subsection \<open>One iteration of the production loop\<close>

lemma process_parts_count:
  "process_parts ps (n, b) = ((n', b'), err) \<Longrightarrow> n \<le> n' \<and> n' \<le> n + length (filter is_image ps)"
proof (induction ps arbitrary: n b)
  case Nil
  then show ?case by simp
next
  case (Cons p ps)
  then show ?case by (cases p) fastforce+
qed

lemma process_parts_err:
  "snd (process_parts ps (n, b)) = snd (process_parts ps (m, c))"
  by (induction ps "(n, b)" arbitrary: n b m c rule: process_parts.induct) auto

lemma on_error_images: "images_generated (fst (on_error msg s)) = images_generated s"
  by (simp add: on_error_def Let_def)

lemma before_call_images: "images_generated (before_call s) = images_generated s"
  by (simp add: before_call_def Let_def)

lemma gen_iter_images:
  "gen_iter oc s = (s', go) \<Longrightarrow>
     images_generated s \<le> images_generated s' \<and> images_generated s' \<le> images_generated s + artifacts oc"
proof (cases oc)
  case (Raises msg)
  assume "gen_iter oc s = (s', go)"
  with Raises have "s' = fst (on_error msg (before_call s))"
    by (simp add: gen_iter_def Let_def)
  then show ?thesis
    by (simp add: on_error_images before_call_images)
next
  case (Returns ps)
  assume g: "gen_iter oc s = (s', go)"
  obtain n b err where pp: "process_parts ps (images_generated s, False) = ((n, b), err)"
    by (metis surj_pair)
  from process_parts_count [OF pp]
  have bnd: "images_generated s \<le> n \<and> n \<le> images_generated s + length (filter is_image ps)" .
  have "images_generated s' = n"
    using g Returns pp
    by (auto simp: gen_iter_def Let_def before_call_images on_error_def split: option.splits if_splits)
  with bnd Returns show ?thesis by (simp add: artifacts_def)
qed

lemma process_parts_images:
  "process_parts (replicate k ImagePart @ ps) (n, b) = process_parts ps (n + k, b \<or> 0 < k)"
  by (induction k arbitrary: n b) auto

lemma pauses_append: "pauses (xs @ ys) = pauses xs @ pauses ys"
  by (induction xs rule: pauses.induct) auto

lemma penalties_append: "penalties (xs @ ys) = penalties xs @ penalties ys"
  by (induction xs rule: penalties.induct) auto

lemma before_call_sleep:
  "sleep_time (before_call s) =
     sleep_time s + (if 0 < requests_made s \<and> requests_made s mod 15 = 0 then 7 else 0)"
  by (simp add: before_call_def Let_def)

lemma before_call_other:
  "requests_made (before_call s) = requests_made s"
  "consecutive_errors (before_call s) = consecutive_errors s"
  by (simp_all add: before_call_def Let_def)

lemma before_call_pauses:
  "pauses (gen_log (before_call s)) = pauses (gen_log s) @ [sleep_time (before_call s)]"
  by (simp add: before_call_def Let_def pauses_append)

lemma before_call_penalties:
  "penalties (gen_log (before_call s)) = penalties (gen_log s)"
  by (simp add: before_call_def Let_def penalties_append)

lemma on_error_fields:
  "sleep_time (fst (on_error msg s)) = sleep_time s"
  "requests_made (fst (on_error msg s)) = requests_made s"
  "pauses (gen_log (fst (on_error msg s))) = pauses (gen_log s)"
  by (simp_all add: on_error_def Let_def pauses_append)

lemma on_error_penalty:
  "penalties (gen_log (fst (on_error msg s))) =
     penalties (gen_log s) @
       (if classify msg = Transient \<and> consecutive_errors s < 4 then [min 60 (sleep_time s * 2)] else [])"
  "snd (on_error msg s) = (classify msg = Transient \<and> consecutive_errors s < 4)"
  by (auto simp: on_error_def Let_def penalties_append classify_def)

lemma gen_iter_Raises: "gen_iter (Raises msg) s = on_error msg (before_call s)"
  by (simp add: gen_iter_def Let_def)

lemma raised_request_not_counted:
  "requests_made (fst (gen_iter (Raises msg) s)) = requests_made s"
  by (simp add: gen_iter_Raises on_error_fields before_call_other)

lemma gen_iter_Returns_failure:
  assumes "snd (process_parts ps (0, False)) = Some msg"
  shows "gen_iter (Returns ps) s =
           on_error msg (before_call s
             \<lparr>requests_made := requests_made s + 1,
              images_generated := fst (fst (process_parts ps (images_generated s, False)))\<rparr>)"
proof -
  obtain n b err where pp: "process_parts ps (images_generated s, False) = ((n, b), err)"
    by (metis surj_pair)
  have "err = Some msg"
    using assms pp process_parts_err [of ps "images_generated s" False 0 False] by simp
  with pp show ?thesis
    by (simp add: gen_iter_def Let_def before_call_images before_call_other)
qed

lemma gen_iter_Returns_fields:
  assumes "gen_iter (Returns ps) s = (s', go)"
  shows "requests_made s' = requests_made s + 1"
    and "sleep_time s' = sleep_time (before_call s)"
    and "pauses (gen_log s') = pauses (gen_log s) @ [sleep_time (before_call s)]"
proof -
  obtain n b err where pp: "process_parts ps (images_generated s, False) = ((n, b), err)"
    by (metis surj_pair)
  show "requests_made s' = requests_made s + 1"
    using assms pp
    by (auto simp: gen_iter_def Let_def before_call_images before_call_other on_error_def
        split: option.splits if_splits)
  show "sleep_time s' = sleep_time (before_call s)"
    using assms pp
    by (auto simp: gen_iter_def Let_def before_call_images on_error_def
        split: option.splits if_splits)
  show "pauses (gen_log s') = pauses (gen_log s) @ [sleep_time (before_call s)]"
    using assms pp
    by (auto simp: gen_iter_def Let_def before_call_images before_call_pauses on_error_def
        pauses_append split: option.splits if_splits)
qed

subsection \<open>The whole production loop\<close>

lemma gen_loop_ceiling:
  "gen_loop mx ocs s = Some s' \<Longrightarrow> \<forall>oc \<in> set ocs. artifacts oc \<le> k \<Longrightarrow>
     images_generated s \<le> mx + (k - 1) \<Longrightarrow> images_generated s' \<le> mx + (k - 1)"
proof (induction ocs arbitrary: s)
  case Nil
  then show ?case by (simp split: if_splits)
next
  case (Cons oc ocs)
  show ?case
  proof (cases "images_generated s < mx")
    case False
    with Cons.prems show ?thesis by simp
  next
    case True
    obtain s1 go where it: "gen_iter oc s = (s1, go)" by (metis surj_pair)
    from gen_iter_images [OF it] Cons.prems(2) True
    have b: "images_generated s1 \<le> mx + (k - 1)" by (cases "artifacts oc") auto
    show ?thesis
    proof (cases go)
      case True
      with Cons.prems(1) it \<open>images_generated s < mx\<close>
      have "gen_loop mx ocs s1 = Some s'" by simp
      from Cons.IH [OF this _ b] Cons.prems(2) show ?thesis by simp
    next
      case False
      with Cons.prems(1) it \<open>images_generated s < mx\<close> have "s' = s1" by simp
      with b show ?thesis by simp
    qed
  qed
qed

lemma div15_step: "0 < (r::nat) \<Longrightarrow> r mod 15 = 0 \<Longrightarrow> (r - 1) div 15 + 1 = r div 15"
proof -
  assume r: "0 < r" "r mod 15 = 0"
  then obtain q where q: "r = 15 * q" by (auto simp: mod_eq_0_iff_dvd elim: dvdE)
  with r have "0 < q" by simp
  then obtain q' where q': "q = Suc q'" by (cases q) auto
  have "r - 1 = 15 * q' + 14" using q q' by simp
  then have "(r - 1) div 15 = q'" by simp
  with q q' show ?thesis by simp
qed

lemma div15_same: "\<not> (0 < (r::nat) \<and> r mod 15 = 0) \<Longrightarrow> (r - 1) div 15 = r div 15"
proof (cases r)
  case 0
  then show ?thesis by simp
next
  case (Suc m)
  assume "\<not> (0 < r \<and> r mod 15 = 0)"
  with Suc have nz: "Suc m mod 15 \<noteq> 0" by simp
  have "Suc m div 15 = m div 15"
    using nz by (simp add: div_Suc)
  with Suc show ?thesis by simp
qed


lemma gen_loop_pauses:
  "gen_loop mx (map Returns pss) s = Some s' \<Longrightarrow>
   sleep_time s = 8 + 7 * ((requests_made s - 1) div 15) \<Longrightarrow>
   requests_made s \<le> requests_made s' \<and>
   pauses (gen_log s') =
     pauses (gen_log s) @ map (\<lambda>k. 8 + 7 * (k div 15)) [requests_made s ..< requests_made s']"
proof (induction pss arbitrary: s)
  case Nil
  then show ?case by (simp split: if_splits)
next
  case (Cons ps pss)
  show ?case
  proof (cases "images_generated s < mx")
    case False
    with Cons.prems show ?thesis by simp
  next
    case True
    obtain s1 go where it: "gen_iter (Returns ps) s = (s1, go)" by (metis surj_pair)
    let ?r = "requests_made s"
    have d: "sleep_time (before_call s) = 8 + 7 * (?r div 15)"
    proof (cases "0 < ?r \<and> ?r mod 15 = 0")
      case True
      then have "0 < ?r" and "?r mod 15 = 0" by simp_all
      then have "(?r - 1) div 15 + 1 = ?r div 15" by (rule div15_step)
      then have "7 * ((?r - 1) div 15) + 7 = 7 * (?r div 15)" by arith
      with True Cons.prems(2) show ?thesis by (simp add: before_call_sleep)
    next
      case False
      then have "(?r - 1) div 15 = ?r div 15" by (rule div15_same)
      with False Cons.prems(2) show ?thesis by (simp add: before_call_sleep)
    qed
    note f = gen_iter_Returns_fields [OF it]
    have inv1: "sleep_time s1 = 8 + 7 * ((requests_made s1 - 1) div 15)"
      using f d by simp
    have p1: "pauses (gen_log s1) = pauses (gen_log s) @ [8 + 7 * (?r div 15)]"
      using f d by simp
    show ?thesis
    proof (cases go)
      case True
      with Cons.prems(1) it \<open>images_generated s < mx\<close>
      have "gen_loop mx (map Returns pss) s1 = Some s'" by simp
      from Cons.IH [OF this inv1]
      have le: "requests_made s1 \<le> requests_made s'"
        and ps: "pauses (gen_log s') = pauses (gen_log s1) @
           map (\<lambda>k. 8 + 7 * (k div 15)) [requests_made s1 ..< requests_made s']"
        by simp_all
      from le f(1) have lt: "?r < requests_made s'" by simp
      have "[?r ..< requests_made s'] = ?r # [requests_made s1 ..< requests_made s']"
        using lt f(1) by (simp add: upt_conv_Cons)
      with ps p1 lt show ?thesis by simp
    next
      case False
      with Cons.prems(1) it \<open>images_generated s < mx\<close> have "s' = s1" by simp
      with p1 f(1) show ?thesis by simp
    qed
  qed
qed

subsection \<open>One step of the rotation loop\<close>

lemma main_start:
  "main all_keys env file =
     main_loop all_keys env [current_key_index (load_progress file) ..< length all_keys]
       (start_state file)"
  by (simp add: main_def start_state_def Let_def)

lemma process_key_skip:
  "all_keys ! i \<in> set (exhausted_keys (prog st)) \<Longrightarrow>
     process_key all_keys env i st = Some (st\<lparr>events := events st @ [Skipped i]\<rparr>)"
  by (simp add: process_key_def Let_def)

lemma process_key_fatal:
  "all_keys ! i \<notin> set (exhausted_keys (prog st)) \<Longrightarrow> client_error (env i) = Some msg \<Longrightarrow>
     process_key all_keys env i st =
       Some (st\<lparr>prog := mark_exhausted (all_keys ! i) (prog st),
                events := events st @ [FatalError i msg]\<rparr>)"
  by (simp add: process_key_def handler_def Let_def)

lemma process_key_probe_false:
  "all_keys ! i \<notin> set (exhausted_keys (prog st)) \<Longrightarrow> client_error (env i) = None \<Longrightarrow>
   \<not> test_api_key (probe_call (env i)) \<Longrightarrow>
     process_key all_keys env i st =
       Some (st\<lparr>prog := mark_exhausted (all_keys ! i) (prog st),
                events := events st @ [Probed i False]\<rparr>)"
  by (simp add: process_key_def Let_def)

lemma process_key_run_error:
  "all_keys ! i \<notin> set (exhausted_keys (prog st)) \<Longrightarrow> client_error (env i) = None \<Longrightarrow>
   test_api_key (probe_call (env i)) \<Longrightarrow> run_error (env i) = Some msg \<Longrightarrow>
     process_key all_keys env i st =
       Some (st\<lparr>prog := mark_exhausted (all_keys ! i) (prog st),
                events := events st @ [Probed i True, FatalError i msg]\<rparr>)"
  by (simp add: process_key_def handler_def Let_def)

lemma process_key_run:
  "all_keys ! i \<notin> set (exhausted_keys (prog st)) \<Longrightarrow> client_error (env i) = None \<Longrightarrow>
   test_api_key (probe_call (env i)) \<Longrightarrow> run_error (env i) = None \<Longrightarrow>
     process_key all_keys env i st =
       map_option
         (\<lambda>n. record_run (all_keys ! i) i n (env i) (st\<lparr>events := events st @ [Probed i True]\<rparr>))
         (generate_with_key 500 (calls (env i)))"
  by (simp add: process_key_def Let_def split: option.splits)

lemma record_run_Saved:
  "save_call e = Saved \<Longrightarrow> report_error e = None \<Longrightarrow>
     record_run key i n e st =
       \<lparr>prog = after_run key i n (prog st), checkpoint = Some (after_run key i n (prog st)),
        events = events st @ [Ran i n, Wrote (after_run key i n (prog st))]\<rparr>"
  by (simp add: record_run_def Let_def)

lemma record_run_prog:
  "prog (record_run key i n e st) =
     (if save_call e = Saved \<and> report_error e = None then after_run key i n (prog st)
      else mark_exhausted key (after_run key i n (prog st)))"
  by (auto simp: record_run_def handler_def Let_def split: save_outcome.splits option.splits)

lemma record_run_checkpoint:
  "checkpoint (record_run key i n e st) =
     (case save_call e of
        Saved \<Rightarrow> Some (after_run key i n (prog st))
      | SaveRaised msg clobbered \<Rightarrow> if clobbered then None else checkpoint st)"
  by (auto simp: record_run_def handler_def Let_def split: save_outcome.splits option.splits)

lemma after_run_fields:
  "current_key_index (after_run key i n p) = i"
  "total_images_generated (after_run key i n p) = total_images_generated p + n"
  "images_per_key (after_run key i n p) = AList.update (key_name i) n (images_per_key p)"
  "exhausted_keys (after_run key i n p) = exhausted_keys p @ (if n < 50 then [key] else [])"
  by (simp_all add: after_run_def mark_exhausted_def Let_def)

lemma mark_exhausted_fields:
  "current_key_index (mark_exhausted key p) = current_key_index p"
  "total_images_generated (mark_exhausted key p) = total_images_generated p"
  "images_per_key (mark_exhausted key p) = images_per_key p"
  "exhausted_keys (mark_exhausted key p) = exhausted_keys p @ [key]"
  by (simp_all add: mark_exhausted_def)

lemma gen_iter_one_image:
  "\<exists>s'. gen_iter (Returns [ImagePart]) s = (s', True) \<and> images_generated s' = images_generated s + 1"
  by (simp add: gen_iter_def Let_def before_call_images)

lemma gen_loop_single_images:
  "images_generated s + n \<le> mx \<Longrightarrow>
     \<exists>s'. gen_loop mx (replicate n (Returns [ImagePart]) @ rest) s = gen_loop mx rest s'
         \<and> images_generated s' = images_generated s + n"
proof (induction n arbitrary: s)
  case 0
  then show ?case by auto
next
  case (Suc n)
  obtain s1 where s1: "gen_iter (Returns [ImagePart]) s = (s1, True)"
    "images_generated s1 = images_generated s + 1"
    using gen_iter_one_image by blast
  from Suc.prems s1 have "images_generated s1 + n \<le> mx" by simp
  from Suc.IH [OF this] obtain s' where
    "gen_loop mx (replicate n (Returns [ImagePart]) @ rest) s1 = gen_loop mx rest s'"
    "images_generated s' = images_generated s1 + n" by blast
  moreover from Suc.prems have "images_generated s < mx" by simp
  ultimately show ?case using s1 by auto
qed

lemma overshoot_501:
  "generate_with_key 500 (replicate 499 (Returns [ImagePart]) @ [Returns [ImagePart, ImagePart]])
     = Some 501"
proof -
  have "images_generated gen_init + 499 \<le> 500" by (simp add: gen_init_def)
  from gen_loop_single_images [OF this, of "[Returns [ImagePart, ImagePart]]"]
  obtain s' where
    l: "gen_loop 500 (replicate 499 (Returns [ImagePart]) @ [Returns [ImagePart, ImagePart]]) gen_init
        = gen_loop 500 [Returns [ImagePart, ImagePart]] s'"
    and i: "images_generated s' = 499"
    by (auto simp: gen_init_def)
  have "map_option images_generated (gen_loop 500 [Returns [ImagePart, ImagePart]] s') = Some 501"
    using i by (simp add: gen_iter_def Let_def before_call_images)
  with l show ?thesis by (simp add: generate_with_key_def)
qed

lemma writes_append: "writes (xs @ ys) = writes xs @ writes ys"
  by (induction xs rule: writes.induct) auto




lemma record_run_events:
  "events (record_run key i n e st) =
     events st @ [Ran i n] @
       (case save_call e of
          Saved \<Rightarrow> [Wrote (after_run key i n (prog st))] @
                     (case report_error e of Some msg \<Rightarrow> [FatalError i msg] | None \<Rightarrow> [])
        | SaveRaised msg clobbered \<Rightarrow> [FatalError i msg])"
  by (auto simp: record_run_def handler_def Let_def split: save_outcome.splits option.splits)

lemma record_run_writes:
  "writes (events (record_run key i n e st)) =
     writes (events st) @ (if save_call e = Saved then [after_run key i n (prog st)] else [])"
  by (auto simp: record_run_events writes_append split: save_outcome.splits option.splits)



subsection \<open>The rotation loop as a whole\<close>

lemma main_loop_Cons_Some:
  "process_key all_keys env i st = Some st' \<Longrightarrow>
     main_loop all_keys env (i # rest) st = main_loop all_keys env rest st'"
  by simp

text \<open>The five ways through the body of the loop.\<close>

lemma process_key_cases:
  assumes "process_key all_keys env i st = Some st'"
  obtains
    (skip) "all_keys ! i \<in> set (exhausted_keys (prog st))"
      "st' = st\<lparr>events := events st @ [Skipped i]\<rparr>"
  | (client) msg where "all_keys ! i \<notin> set (exhausted_keys (prog st))"
      "client_error (env i) = Some msg"
      "st' = st\<lparr>prog := mark_exhausted (all_keys ! i) (prog st),
                 events := events st @ [FatalError i msg]\<rparr>"
  | (probe) "all_keys ! i \<notin> set (exhausted_keys (prog st))"
      "client_error (env i) = None" "\<not> test_api_key (probe_call (env i))"
      "st' = st\<lparr>prog := mark_exhausted (all_keys ! i) (prog st),
                 events := events st @ [Probed i False]\<rparr>"
  | (abort) msg where "all_keys ! i \<notin> set (exhausted_keys (prog st))"
      "client_error (env i) = None" "test_api_key (probe_call (env i))"
      "run_error (env i) = Some msg"
      "st' = st\<lparr>prog := mark_exhausted (all_keys ! i) (prog st),
                 events := events st @ [Probed i True, FatalError i msg]\<rparr>"
  | (run) n where "all_keys ! i \<notin> set (exhausted_keys (prog st))"
      "client_error (env i) = None" "test_api_key (probe_call (env i))"
      "run_error (env i) = None" "generate_with_key 500 (calls (env i)) = Some n"
      "st' = record_run (all_keys ! i) i n (env i) (st\<lparr>events := events st @ [Probed i True]\<rparr>)"
proof (cases "all_keys ! i \<in> set (exhausted_keys (prog st))")
  case True
  with assms skip show ?thesis by (simp add: process_key_skip)
next
  case ne: False
  show ?thesis
  proof (cases "client_error (env i)")
    case (Some msg)
    with assms ne client show ?thesis by (simp add: process_key_fatal)
  next
    case None
    show ?thesis
    proof (cases "test_api_key (probe_call (env i))")
      case False
      with assms ne None probe show ?thesis by (simp add: process_key_probe_false)
    next
      case True
      show ?thesis
      proof (cases "run_error (env i)")
        case (Some msg)
        with assms ne None True abort show ?thesis by (simp add: process_key_run_error)
      next
        case re: None
        with assms ne None True obtain n where
          "generate_with_key 500 (calls (env i)) = Some n"
          "st' = record_run (all_keys ! i) i n (env i) (st\<lparr>events := events st @ [Probed i True]\<rparr>)"
          by (auto simp: process_key_run)
        with ne None True re run show ?thesis by blast
      qed
    qed
  qed
qed




lemma entries_from_mark:
  "i < length all_keys \<Longrightarrow> entries_from all_keys p0 p \<Longrightarrow>
     entries_from all_keys p0 (mark_exhausted (all_keys ! i) p)"
  by (auto simp: entries_from_def mark_exhausted_fields)

lemma entries_from_after_run:
  "i < length all_keys \<Longrightarrow> entries_from all_keys p0 p \<Longrightarrow>
     entries_from all_keys p0 (after_run (all_keys ! i) i n p)"
  by (auto simp: entries_from_def after_run_fields AList.dom_update)

lemma process_key_entries:
  assumes "process_key all_keys env i st = Some st'" and "i < length all_keys"
    and "entries_from all_keys p0 (prog st)"
    and "list_all (entries_from all_keys p0) (writes (events st))"
  shows "entries_from all_keys p0 (prog st')
       \<and> list_all (entries_from all_keys p0) (writes (events st'))"
proof -
  note m = entries_from_mark [OF assms(2,3)] and a = entries_from_after_run [OF assms(2,3)]
  from assms(1) show ?thesis
  proof (cases rule: process_key_cases)
    case skip
    with assms(3,4) show ?thesis by (simp add: writes_append)
  next
    case (client msg)
    with assms(4) m show ?thesis by (simp add: writes_append)
  next
    case probe
    with assms(4) m show ?thesis by (simp add: writes_append)
  next
    case (abort msg)
    with assms(4) m show ?thesis by (simp add: writes_append)
  next
    case (run n)
    from a [of n] entries_from_mark [OF assms(2) a [of n]]
    have "entries_from all_keys p0 (prog st')"
      by (simp add: run(6) record_run_prog)
    moreover have "list_all (entries_from all_keys p0) (writes (events st'))"
      using assms(4) a [of n] by (simp add: run(6) record_run_writes writes_append)
    ultimately show ?thesis by simp
  qed
qed

lemma main_loop_entries:
  "main_loop all_keys env ps st = Some st' \<Longrightarrow> \<forall>i \<in> set ps. i < length all_keys \<Longrightarrow>
   entries_from all_keys p0 (prog st) \<Longrightarrow>
   list_all (entries_from all_keys p0) (writes (events st)) \<Longrightarrow>
     entries_from all_keys p0 (prog st')
     \<and> list_all (entries_from all_keys p0) (writes (events st'))"
proof (induction ps arbitrary: st)
  case Nil
  then show ?case by simp
next
  case (Cons i ps)
  from Cons.prems(1) obtain st1 where s1: "process_key all_keys env i st = Some st1"
    and l: "main_loop all_keys env ps st1 = Some st'"
    by (auto split: option.splits)
  from Cons.prems(2) have i: "i < length all_keys" by simp
  from process_key_entries [OF s1 i Cons.prems(3,4)]
  have "entries_from all_keys p0 (prog st1)"
    "list_all (entries_from all_keys p0) (writes (events st1))" by simp_all
  with Cons.IH [OF l] Cons.prems(2) show ?case by simp
qed

lemma digit_val_digit_char: "d < 10 \<Longrightarrow> digit_val (digit_char d) = d"
  by (simp add: digit_val_def digit_char_def)

lemma int_of_str_snoc: "int_of_str (s @ [c]) = 10 * int_of_str s + digit_val c"
  by (simp add: int_of_str_def)

lemma int_of_str_str_nat: "int_of_str (str_nat n) = n"
proof (induction n rule: str_nat.induct)
  case (1 n)
  show ?case
  proof (cases "n < 10")
    case True
    then have "str_nat n = [digit_char n]" by (simp add: str_nat.simps)
    with True show ?thesis by (simp add: int_of_str_def digit_val_digit_char)
  next
    case False
    then have s: "str_nat n = str_nat (n div 10) @ [digit_char (n mod 10)]"
      by (subst str_nat.simps) simp
    from 1 False have "int_of_str (str_nat (n div 10)) = n div 10" by simp
    then show ?thesis
      by (simp add: s int_of_str_snoc digit_val_digit_char)
  qed
qed

lemma key_name_inj: "key_name i = key_name j \<Longrightarrow> i = j"
proof -
  assume "key_name i = key_name j"
  then have "str_nat (i + 1) = str_nat (j + 1)" by (simp add: key_name_def)
  then have "int_of_str (str_nat (i + 1)) = int_of_str (str_nat (j + 1))" by simp
  then show "i = j" by (simp add: int_of_str_str_nat)
qed

lemma sum_update_new:
  "k \<notin> fst ` set al \<Longrightarrow>
     sum_list (map snd (AList.update k v al)) = sum_list (map snd al) + (v::nat)"
  by (induction al) auto

lemma tally_ok_mark: "tally_ok (mark_exhausted key p) = tally_ok p"
  by (simp add: tally_ok_def sum_counts_def mark_exhausted_fields)

lemma tally_ok_after_run:
  "key_name i \<notin> fst ` set (images_per_key p) \<Longrightarrow> tally_ok p \<Longrightarrow> tally_ok (after_run key i n p)"
  by (simp add: tally_ok_def sum_counts_def after_run_fields sum_update_new)

lemma process_key_tally:
  assumes "process_key all_keys env i st = Some st'"
    and "fst ` set (images_per_key (prog st)) \<subseteq> key_name ` {..< i}"
    and "tally_ok (prog st)"
    and "list_all tally_ok (writes (events st))"
  shows "fst ` set (images_per_key (prog st')) \<subseteq> key_name ` {..< Suc i}
       \<and> tally_ok (prog st') \<and> list_all tally_ok (writes (events st'))"
proof -
  have new: "key_name i \<notin> fst ` set (images_per_key (prog st))"
  proof
    assume "key_name i \<in> fst ` set (images_per_key (prog st))"
    with assms(2) obtain j where "j < i" "key_name i = key_name j" by auto
    then show False using key_name_inj by blast
  qed
  from assms(1) show ?thesis
  proof (cases rule: process_key_cases)
    case skip
    with assms(2-4) show ?thesis by (auto simp: writes_append less_Suc_eq)
  next
    case (client msg)
    with assms(2-4) show ?thesis
      by (auto simp: writes_append less_Suc_eq tally_ok_mark mark_exhausted_fields)
  next
    case probe
    with assms(2-4) show ?thesis
      by (auto simp: writes_append less_Suc_eq tally_ok_mark mark_exhausted_fields)
  next
    case (abort msg)
    with assms(2-4) show ?thesis
      by (auto simp: writes_append less_Suc_eq tally_ok_mark mark_exhausted_fields)
  next
    case (run n)
    let ?p' = "after_run (all_keys ! i) i n (prog st)"
    have t: "tally_ok ?p'" by (rule tally_ok_after_run [OF new assms(3)])
    have k: "fst ` set (images_per_key ?p') \<subseteq> key_name ` {..< Suc i}"
      using assms(2) by (auto simp: after_run_fields AList.dom_update less_Suc_eq)
    have "fst ` set (images_per_key (prog st')) \<subseteq> key_name ` {..< Suc i}"
      using k by (simp add: run(6) record_run_prog mark_exhausted_fields)
    moreover have "tally_ok (prog st')"
      using t by (simp add: run(6) record_run_prog tally_ok_mark)
    moreover have "list_all tally_ok (writes (events st'))"
      using assms(4) t by (simp add: run(6) record_run_writes writes_append)
    ultimately show ?thesis by simp
  qed
qed

lemma main_loop_tally:
  "main_loop all_keys env [a ..< b] st = Some st' \<Longrightarrow>
   fst ` set (images_per_key (prog st)) \<subseteq> key_name ` {..< a} \<Longrightarrow>
   tally_ok (prog st) \<Longrightarrow> list_all tally_ok (writes (events st)) \<Longrightarrow>
     tally_ok (prog st') \<and> list_all tally_ok (writes (events st'))"
proof (induction "b - a" arbitrary: a st)
  case 0
  then show ?case by simp
next
  case (Suc d)
  then have ab: "a < b" and d: "d = b - Suc a" by simp_all
  from ab have u: "[a ..< b] = a # [Suc a ..< b]" by (simp add: upt_conv_Cons)
  from Suc.prems(1) u obtain st1 where s1: "process_key all_keys env a st = Some st1"
    and l: "main_loop all_keys env [Suc a ..< b] st1 = Some st'"
    by (auto split: option.splits)
  from process_key_tally [OF s1 Suc.prems(2,3,4)]
  have "fst ` set (images_per_key (prog st1)) \<subseteq> key_name ` {..< Suc a}"
    "tally_ok (prog st1)" "list_all tally_ok (writes (events st1))" by simp_all
  from Suc.hyps(1) [OF d l this] show ?case .
qed

lemma sum_invariant_without_rerun:
  assumes "main all_keys env file = Some st"
    and "tally_ok (load_progress file)"
    and "fst ` set (images_per_key (load_progress file))
           \<subseteq> key_name ` {..< current_key_index (load_progress file)}"
    and "cp \<in> set (writes (events st))"
  shows "sum_counts cp = total_images_generated cp"
proof -
  let ?p0 = "load_progress file"
  have l: "main_loop all_keys env [current_key_index ?p0 ..< length all_keys] (start_state file)
      = Some st"
    using assms(1) by (simp add: main_start)
  have "list_all tally_ok (writes (events st))"
    using main_loop_tally [OF l] assms(2,3) by (simp add: start_state_def)
  with assms(4) show ?thesis by (simp add: list_all_iff tally_ok_def)
qed

section \<open>The claims\<close>

subsection \<open>C1: exhaustion after a quota error\<close>

text \<open>
  Claim C1, as the code has it: the error that ended a production run is not passed on to
  \<open>main\<close>, only the count. For a credential whose production run has ended, by an error
  classified \<open>QuotaExhausted\<close> or in any other way, and returned \<open>n\<close>: when
  \<open>save_progress\<close> and the report after it raise nothing, the key is in the exhausted set
  when the loop goes on to the next credential exactly when \<open>n < 50\<close>, and the dictionary
  with that decision is what \<open>save_progress\<close> has written. When \<open>save_progress\<close> or the
  report raises, the handler of line 207 adds the key whatever the count; the file then
  holds the decision by the count if it was written, and not this dictionary if it was not.
\<close>

theorem exhausted_after_run:
  assumes "all_keys ! i \<notin> set (exhausted_keys (prog st))"
    and "client_error (env i) = None"
    and "test_api_key (probe_call (env i))"
    and "run_error (env i) = None"
    and "generate_with_key 500 (calls (env i)) = Some n"
  shows "\<exists>st'. process_key all_keys env i st = Some st'
           \<and> main_loop all_keys env (i # rest) st = main_loop all_keys env rest st'
           \<and> prog st' =
               (if save_call (env i) = Saved \<and> report_error (env i) = None
                then after_run (all_keys ! i) i n (prog st)
                else mark_exhausted (all_keys ! i) (after_run (all_keys ! i) i n (prog st)))
           \<and> (all_keys ! i \<in> set (exhausted_keys (prog st')) \<longleftrightarrow>
                n < 50 \<or> save_call (env i) \<noteq> Saved \<or> report_error (env i) \<noteq> None)
           \<and> checkpoint st' =
               (case save_call (env i) of
                  Saved \<Rightarrow> Some (after_run (all_keys ! i) i n (prog st))
                | SaveRaised msg clobbered \<Rightarrow> if clobbered then None else checkpoint st)
           \<and> (all_keys ! i \<in> set (exhausted_keys (after_run (all_keys ! i) i n (prog st)))
                \<longleftrightarrow> n < 50)"
proof -
  let ?st1 = "st\<lparr>events := events st @ [Probed i True]\<rparr>"
  let ?st' = "record_run (all_keys ! i) i n (env i) ?st1"
  have p: "process_key all_keys env i st = Some ?st'"
    using assms by (simp add: process_key_run)
  have a: "all_keys ! i \<in> set (exhausted_keys (after_run (all_keys ! i) i n (prog st)))
            \<longleftrightarrow> n < 50"
    using assms(1) by (simp add: after_run_fields)
  have m: "all_keys ! i \<in> set (exhausted_keys (prog ?st')) \<longleftrightarrow>
             n < 50 \<or> save_call (env i) \<noteq> Saved \<or> report_error (env i) \<noteq> None"
    using a by (auto simp: record_run_prog mark_exhausted_fields)
  have q: "prog ?st' =
      (if save_call (env i) = Saved \<and> report_error (env i) = None
       then after_run (all_keys ! i) i n (prog st)
       else mark_exhausted (all_keys ! i) (after_run (all_keys ! i) i n (prog st)))"
    by (simp add: record_run_prog)
  have c: "checkpoint ?st' =
      (case save_call (env i) of
         Saved \<Rightarrow> Some (after_run (all_keys ! i) i n (prog st))
       | SaveRaised msg clobbered \<Rightarrow> if clobbered then None else checkpoint st)"
    by (simp add: record_run_checkpoint split: save_outcome.splits)
  have l: "main_loop all_keys env (i # rest) st = main_loop all_keys env rest ?st'"
    using p by simp
  from p l q m c a show ?thesis by blast
qed

text \<open>
  A run of three images that a quota error ends: the key is marked, and the mark is in the
  file. A run of 50 images that a quota error ends, after which \<open>save_progress\<close> cannot
  open the file: the key is marked, and there is no file.
\<close>

theorem exhausted_after_run_witness:
  "(\<exists>st'. process_key [''K''] (env_of [healthy [Returns [ImagePart, ImagePart, ImagePart],
              Raises ''429 quota exceeded'']]) 0 (start_state None) = Some st'
         \<and> ''K'' \<in> set (exhausted_keys (prog st'))
         \<and> checkpoint st' = Some (prog st'))
   \<and> (\<exists>st'. process_key [''K''] (env_of [(healthy [Returns (replicate 50 ImagePart),
              Raises ''429 quota exceeded''])\<lparr>save_call := SaveRaised ''permission denied'' False\<rparr>])
              0 (start_state None) = Some st'
         \<and> ''K'' \<in> set (exhausted_keys (prog st'))
         \<and> checkpoint st' = None)"
proof -
  let ?env = "env_of [healthy [Returns [ImagePart, ImagePart, ImagePart],
              Raises ''429 quota exceeded'']]"
  let ?env2 = "env_of [(healthy [Returns (replicate 50 ImagePart),
              Raises ''429 quota exceeded''])\<lparr>save_call := SaveRaised ''permission denied'' False\<rparr>]"
  have a: "[''K''] ! 0 \<notin> set (exhausted_keys (prog (start_state None)))"
    by (simp add: start_state_def load_progress_def)
  have b: "client_error (?env 0) = None" "run_error (?env 0) = None"
    "save_call (?env 0) = Saved" "report_error (?env 0) = None"
    by (simp_all add: env_of_def healthy_def)
  have c: "test_api_key (probe_call (?env 0))"
    by (simp add: env_of_def healthy_def test_api_key_def)
  have d: "generate_with_key 500 (calls (?env 0)) = Some 3" by code_simp
  have b2: "client_error (?env2 0) = None" "run_error (?env2 0) = None"
    "save_call (?env2 0) = SaveRaised ''permission denied'' False"
    by (simp_all add: env_of_def healthy_def)
  have c2: "test_api_key (probe_call (?env2 0))"
    by (simp add: env_of_def healthy_def test_api_key_def)
  have d2: "generate_with_key 500 (calls (?env2 0)) = Some 50" by code_simp
  from exhausted_after_run
         [where all_keys = "[''K'']" and i = 0 and st = "start_state None" and env = ?env
            and n = 3 and rest = "[]", OF a b(1) c b(2) d]
  have one: "\<exists>st'. process_key [''K''] ?env 0 (start_state None) = Some st'
         \<and> ''K'' \<in> set (exhausted_keys (prog st'))
         \<and> checkpoint st' = Some (prog st')"
    using b(3,4) by auto
  from exhausted_after_run
         [where all_keys = "[''K'']" and i = 0 and st = "start_state None" and env = ?env2
            and n = 50 and rest = "[]", OF a b2(1) c2 b2(2) d2]
  have two: "\<exists>st'. process_key [''K''] ?env2 0 (start_state None) = Some st'
         \<and> ''K'' \<in> set (exhausted_keys (prog st'))
         \<and> checkpoint st' = None"
    using b2(3) by (auto simp: start_state_def)
  from one two show ?thesis by blast
qed

text \<open>
  Against the claim as written: a run that a quota error ends after 50 images (the log line
  of line 130 is its last) leaves the exhausted set empty.
\<close>

theorem exhausted_counterexample:
  "generate_log 500 [Returns (replicate 50 ImagePart), Raises ''429 quota exceeded'']
     = Some [Pause 8, Pause 8, LogExhausted 50]
   \<and> classify ''429 quota exceeded'' = QuotaExhausted
   \<and> map_option (exhausted_keys \<circ> prog)
       (main [''K''] (env_of [healthy [Returns (replicate 50 ImagePart),
          Raises ''429 quota exceeded'']]) None)
     = Some []"
  by code_simp

subsection \<open>C2: the sum of the counts\<close>

text \<open>
  Claim C2 at a failing input. A first process runs the only credential, which makes 50
  images before a quota error; the checkpoint has the count 50 under \<open>key_1\<close>, the total
  50, position 0 and an empty exhausted set. A second process starts on that checkpoint and
  runs the same credential again, which makes one image. Line 194 adds to the total and
  line 195 overwrites the count: the dictionary it writes has the total 51 and counts that
  sum to 1.
\<close>

theorem rerun_breaks_sum:
  "map_option checkpoint
     (main [''K''] (env_of [healthy [Returns (replicate 50 ImagePart), Raises ''quota exceeded'']])
        None)
   = Some (Some \<lparr>current_key_index = 0, total_images_generated = 50,
                 images_per_key = [(''key_1'', 50)], exhausted_keys = []\<rparr>)
   \<and> map_option (writes \<circ> events)
     (main [''K''] (env_of [healthy [Returns [ImagePart], Raises ''quota exceeded'']])
        (Some \<lparr>current_key_index = 0, total_images_generated = 50,
               images_per_key = [(''key_1'', 50)], exhausted_keys = []\<rparr>))
   = Some [\<lparr>current_key_index = 0, total_images_generated = 51,
            images_per_key = [(''key_1'', 1)], exhausted_keys = [''K'']\<rparr>]
   \<and> sum_counts \<lparr>current_key_index = 0, total_images_generated = 51,
            images_per_key = [(''key_1'', 1)], exhausted_keys = [''K'']\<rparr> = 1"
  by code_simp

text \<open>
  The invariant does hold at every write of a process that loaded a dictionary with the
  invariant and with counts for positions before its \<open>current_key_index\<close> only (the
  defaults are such a dictionary): lemma \<open>sum_invariant_without_rerun\<close> above.
\<close>

subsection \<open>C3: the delay after a failed call\<close>

text \<open>
  Claim C3, as the code has it: when a call fails (the request raises, or the processing of
  its response does), the loop goes on exactly when the error has none of the keywords and
  \<open>consecutive_errors\<close> was below 4 before it; then it sleeps once more, for the smaller
  of 60 and twice the delay it slept before the call. A failure that ends the run adds no
  delay.
\<close>

theorem penalty_after_failure:
  assumes "failure oc = Some msg" and "gen_iter oc s = (s', go)"
  shows "go = (classify msg = Transient \<and> consecutive_errors s < 4)
       \<and> pauses (gen_log s') = pauses (gen_log s) @ [sleep_time s']
       \<and> penalties (gen_log s') =
           penalties (gen_log s) @ (if go then [min 60 (sleep_time s' * 2)] else [])"
proof (cases oc)
  case (Raises m)
  with assms(1) have m: "m = msg" by simp
  from assms(2) Raises m have s': "s' = fst (on_error msg (before_call s))"
    and go: "go = snd (on_error msg (before_call s))"
    by (simp_all add: gen_iter_Raises)
  show ?thesis
    unfolding s' go
    by (simp add: on_error_fields on_error_penalty before_call_pauses before_call_penalties
        before_call_other)
next
  case (Returns ps)
  with assms(1) have f: "snd (process_parts ps (0, False)) = Some msg" by simp
  define t where "t = before_call s
             \<lparr>requests_made := requests_made s + 1,
              images_generated := fst (fst (process_parts ps (images_generated s, False)))\<rparr>"
  from assms(2) Returns gen_iter_Returns_failure [OF f, of s]
  have s': "s' = fst (on_error msg t)" and go: "go = snd (on_error msg t)"
    by (simp_all add: t_def)
  have t: "sleep_time t = sleep_time (before_call s)"
      "consecutive_errors t = consecutive_errors s"
      "pauses (gen_log t) = pauses (gen_log s) @ [sleep_time (before_call s)]"
      "penalties (gen_log t) = penalties (gen_log s)"
    by (simp_all add: t_def before_call_pauses before_call_penalties before_call_other)
  show ?thesis
    unfolding s' go
    by (simp add: on_error_fields on_error_penalty t)
qed

theorem penalty_after_failure_witness:
  "gen_iter (Raises ''timeout'') gen_init =
     (gen_init\<lparr>consecutive_errors := 1, gen_log := [Pause 8, Penalty 16]\<rparr>, True)
   \<and> penalties [Pause 8, Penalty 16] = [min 60 (8 * 2)]"
proof -
  have g: "gen_iter (Raises ''timeout'') gen_init =
     (gen_init\<lparr>consecutive_errors := 1, gen_log := [Pause 8, Penalty 16]\<rparr>, True)"
    by code_simp
  have f: "failure (Raises ''timeout'') = Some ''timeout''" by simp
  from penalty_after_failure [OF f g] show ?thesis
    using g by (simp add: gen_init_def)
qed

text \<open>
  Against the claim as written: after a first error without keyword the loop sleeps 16, not
  the larger of 16 and 60, and after the quota error it does not sleep at all.
\<close>

theorem penalty_counterexample:
  "generate_log 500 [Raises ''timeout'', Raises ''quota exceeded''] =
     Some [Pause 8, Penalty 16, Pause 8, LogExhausted 0]
   \<and> max (8 * 2) 60 \<noteq> (16::nat)"
  by code_simp

subsection \<open>C4: what the checkpoint holds of a credential\<close>

text \<open>
  Claim C4, as the code has it: in every dictionary that \<open>save_progress\<close> writes, the names
  in \<open>images_per_key\<close> are names of positions (\<open>key_1\<close>, \<open>key_2\<close>, ...) or were in the
  file that was loaded, and the entries of \<open>exhausted_keys\<close> are elements of \<open>all_keys\<close>,
  the secret values themselves, or were in the file that was loaded.
\<close>

theorem checkpoint_entries:
  assumes "main all_keys env file = Some st" and "cp \<in> set (writes (events st))"
  shows "set (exhausted_keys cp) \<subseteq> set (exhausted_keys (load_progress file)) \<union> set all_keys
       \<and> fst ` set (images_per_key cp) \<subseteq>
           fst ` set (images_per_key (load_progress file)) \<union> key_name ` {..< length all_keys}"
proof -
  let ?p0 = "load_progress file"
  have l: "main_loop all_keys env [current_key_index ?p0 ..< length all_keys] (start_state file)
      = Some st"
    using assms(1) by (simp add: main_start)
  have "entries_from all_keys ?p0 (prog (start_state file))"
    by (simp add: entries_from_def start_state_def)
  moreover have "list_all (entries_from all_keys ?p0) (writes (events (start_state file)))"
    by (simp add: start_state_def)
  ultimately have "list_all (entries_from all_keys ?p0) (writes (events st))"
    using main_loop_entries [OF l] by simp
  with assms(2) have "entries_from all_keys ?p0 cp" by (simp add: list_all_iff)
  then show ?thesis by (simp add: entries_from_def)
qed

theorem checkpoint_entries_witness:
  "map_option (writes \<circ> events)
     (main [''AIza-secret-1''] (env_of [healthy [Raises ''quota exceeded'']]) None)
   = Some [\<lparr>current_key_index = 0, total_images_generated = 0,
            images_per_key = [(''key_1'', 0)], exhausted_keys = [''AIza-secret-1'']\<rparr>]
   \<and> set [''AIza-secret-1''] \<subseteq> set [] \<union> set [''AIza-secret-1'']
   \<and> fst ` set [(''key_1'', 0::nat)] \<subseteq> fst ` set [] \<union> key_name ` {..< 1}"
proof -
  let ?cp = "\<lparr>current_key_index = 0, total_images_generated = 0,
            images_per_key = [(''key_1'', 0)], exhausted_keys = [''AIza-secret-1'']\<rparr>"
  let ?st = "\<lparr>prog = ?cp, checkpoint = Some ?cp, events = [Probed 0 True, Ran 0 0, Wrote ?cp]\<rparr>"
  have m: "main [''AIza-secret-1''] (env_of [healthy [Raises ''quota exceeded'']]) None = Some ?st"
    by code_simp
  have w: "?cp \<in> set (writes (events ?st))" by simp
  from checkpoint_entries [OF m w] m show ?thesis
    by (simp add: load_progress_def)
qed

text \<open>
  Against the claim as written: the checkpoint written after a run that a quota error ended
  at once has the secret value of the credential in its exhausted set.
\<close>

theorem secret_counterexample:
  "map_option checkpoint
     (main [''AIza-secret-1''] (env_of [healthy [Raises ''quota exceeded'']]) None)
   = Some (Some \<lparr>current_key_index = 0, total_images_generated = 0,
                 images_per_key = [(''key_1'', 0)], exhausted_keys = [''AIza-secret-1'']\<rparr>)"
  by code_simp

subsection \<open>C5: the escalation by request count\<close>

text \<open>
  Claim C5, as the code has it: \<open>requests_made\<close> counts the calls that returned a response
  (line 98 is not reached when the request raises). In a production run whose calls all
  return, the delay before the call that follows \<open>k\<close> earlier ones is
  \<open>8 + 7 * (k div 15)\<close>: it grows by exactly 7 at every multiple of 15, and once for each.
  That a request which raises is not counted is lemma \<open>raised_request_not_counted\<close>.
\<close>

theorem escalation_every_15_returned:
  assumes "generate_log mx (map Returns pss) = Some l"
  shows "pauses l = map (\<lambda>k. 8 + 7 * (k div 15)) [0 ..< length (pauses l)]"
proof -
  from assms obtain s' where g: "gen_loop mx (map Returns pss) gen_init = Some s'"
    and l: "l = gen_log s'"
    by (auto simp: generate_log_def)
  have "sleep_time gen_init = 8 + 7 * ((requests_made gen_init - 1) div 15)"
    by (simp add: gen_init_def)
  from gen_loop_pauses [OF g this]
  have "pauses l = map (\<lambda>k. 8 + 7 * (k div 15)) [0 ..< requests_made s']"
    by (simp add: l gen_init_def)
  moreover from this have "length (pauses l) = requests_made s'" by simp
  ultimately show ?thesis by simp
qed

theorem escalation_every_15_returned_witness:
  "generate_log 500 (map Returns (replicate 16 [ImagePart] @ [[Faulty ''quota'']])) =
     Some (map Pause (replicate 15 8) @ [LogIncrease 15 15, Pause 15, Pause 15, LogExhausted 16])
   \<and> pauses (map Pause (replicate 15 8) @ [LogIncrease 15 15, Pause 15, Pause 15, LogExhausted 16])
     = map (\<lambda>k. 8 + 7 * (k div 15)) [0 ..< 17]"
proof -
  let ?l = "map Pause (replicate 15 8) @ [LogIncrease 15 15, Pause 15, Pause 15, LogExhausted 16]"
  have g: "generate_log 500 (map Returns (replicate 16 [ImagePart] @ [[Faulty ''quota'']])) = Some ?l"
    by code_simp
  have n: "length (pauses ?l) = 17" by code_simp
  from escalation_every_15_returned [OF g] n g show ?thesis by simp
qed

text \<open>
  Against the claim as written: with one request that raised and fifteen that returned, the
  delays before the first sixteen requests are all 8; the sixteenth request comes after
  fifteen requests and is not slowed down. The delay grows before the seventeenth.
\<close>

theorem escalation_counterexample:
  "map_option pauses
     (generate_log 500
        ([Raises ''timeout''] @ replicate 15 (Returns [ImagePart]) @ [Raises ''quota'']))
     = Some (replicate 16 8 @ [15])"
  by code_simp

subsection \<open>C6: the keywords\<close>

text \<open>
  Claim C6, as the code has it: an error is classified \<open>QuotaExhausted\<close> exactly when its
  text, with the ASCII letters in lower case, contains one of \<open>quota\<close>, \<open>limit\<close>, \<open>rate\<close>,
  \<open>exceeded\<close> and \<open>429\<close>; every other error is \<open>Transient\<close>. The probe answers \<open>False\<close>
  for exactly the errors of the first kind.
\<close>

theorem classify_by_keywords:
  "classify msg =
     (if \<exists>kw \<in> {''quota'', ''limit'', ''rate'', ''exceeded'', ''429''}.
           \<exists>p q. lower msg = p @ kw @ q
      then QuotaExhausted else Transient)
   \<and> test_api_key (Some msg) = (classify msg = Transient)"
  unfolding classify_def test_api_key_def quota_signal_iff by simp

theorem classify_by_keywords_witness:
  "classify ''HTTP 429: Too Many'' = QuotaExhausted \<and> \<not> test_api_key (Some ''HTTP 429: Too Many'')"
proof -
  have l: "lower ''HTTP 429: Too Many'' = ''http '' @ ''429'' @ '': too many''"
    by code_simp
  have "\<exists>kw \<in> {''quota'', ''limit'', ''rate'', ''exceeded'', ''429''}.
           \<exists>p q. lower ''HTTP 429: Too Many'' = p @ kw @ q"
    using l by blast
  then show ?thesis
    using classify_by_keywords [of "''HTTP 429: Too Many''"] by simp
qed

text \<open>
  Against the claim as written: an error text with \<open>throttle\<close> in it is \<open>Transient\<close>, and one
  with \<open>exceeded\<close>, which has none of the markers of the claim, is \<open>QuotaExhausted\<close>.
\<close>

theorem throttle_counterexample:
  "contains ''throttle'' (lower ''Throttled by provider'')
   \<and> classify ''Throttled by provider'' = Transient
   \<and> classify ''deadline exceeded'' = QuotaExhausted"
  by code_simp

subsection \<open>C7: an error outside the production loop\<close>




subsection \<open>C8: a probe that answers \<open>False\<close>\<close>

text \<open>
  Claim C8, as the code has it: when the probe returns \<open>False\<close>, the key is added to the
  exhausted set in memory and the loop goes on with the next position; \<open>save_progress\<close> is
  not called, so \<open>progress.json\<close> is as it was before.
\<close>

theorem probe_false_marks_in_memory:
  assumes "all_keys ! i \<notin> set (exhausted_keys (prog st))"
    and "client_error (env i) = None"
    and "\<not> test_api_key (probe_call (env i))"
  shows "\<exists>st'. process_key all_keys env i st = Some st'
           \<and> main_loop all_keys env (i # rest) st = main_loop all_keys env rest st'
           \<and> exhausted_keys (prog st') = exhausted_keys (prog st) @ [all_keys ! i]
           \<and> checkpoint st' = checkpoint st
           \<and> events st' = events st @ [Probed i False]"
  using assms by (simp add: process_key_probe_false mark_exhausted_fields)

theorem probe_false_marks_in_memory_witness:
  "\<exists>st'. process_key [''A''] (env_of [probe_fails ''429 Too Many Requests'']) 0
             (start_state None) = Some st'
         \<and> exhausted_keys (prog st') = [''A'']
         \<and> checkpoint st' = None"
proof -
  let ?env = "env_of [probe_fails ''429 Too Many Requests'']"
  have a: "[''A''] ! 0 \<notin> set (exhausted_keys (prog (start_state None)))"
    by (simp add: start_state_def load_progress_def)
  have b: "client_error (?env 0) = None"
    by (simp add: env_of_def probe_fails_def healthy_def)
  have c: "\<not> test_api_key (probe_call (?env 0))" by code_simp
  from probe_false_marks_in_memory
         [where all_keys = "[''A'']" and i = 0 and st = "start_state None" and env = ?env
            and rest = "[]", OF a b c]
  show ?thesis by (auto simp: start_state_def load_progress_def)
qed

text \<open>
  Against the claim as written: for a single credential whose probe meets a 429 error,
  \<open>main\<close> ends with the key marked in memory and no checkpoint file.
\<close>

theorem probe_counterexample:
  "main [''A''] (env_of [probe_fails ''429 Too Many Requests'']) None
   = Some \<lparr>prog = \<lparr>current_key_index = 0, total_images_generated = 0,
                    images_per_key = [], exhausted_keys = [''A'']\<rparr>,
           checkpoint = None,
           events = [Probed 0 False]\<rparr>"
  by code_simp

subsection \<open>C9: the production ceiling\<close>

text \<open>
  Claim C9, as the code has it: the ceiling is tested before each call only (line 80). When
  no response of a run has more than \<open>k\<close> image parts, the count the run returns is at most
  the ceiling plus \<open>k - 1\<close>; with at most one image part in each response it is at most the
  ceiling, which \<open>main\<close> leaves at 500.
\<close>

theorem ceiling_overshoot_bounded:
  assumes "generate_with_key mx ocs = Some n"
      and "\<forall>oc \<in> set ocs. artifacts oc \<le> k"
    shows "n \<le> mx + (k - 1)"
proof -
  from assms(1) obtain s' where
    "gen_loop mx ocs gen_init = Some s'" and "n = images_generated s'"
    by (auto simp: generate_with_key_def)
  with gen_loop_ceiling [of mx ocs gen_init s' k] assms(2) show ?thesis
    by (simp add: gen_init_def)
qed

theorem ceiling_overshoot_bounded_witness:
  "generate_with_key 500 (replicate 499 (Returns [ImagePart]) @ [Returns [ImagePart, ImagePart]])
     = Some 501 \<and> (501::nat) \<le> 500 + (2 - 1)"
proof -
  let ?ocs = "replicate 499 (Returns [ImagePart]) @ [Returns [ImagePart, ImagePart]]"
  have a: "\<forall>oc \<in> set ?ocs. artifacts oc \<le> 2" by (simp add: artifacts_def)
  from ceiling_overshoot_bounded [OF overshoot_501 a] overshoot_501 show ?thesis by simp
qed

text \<open>
  Against the claim as written: after 499 responses with one image part each, a response
  with two image parts takes the count to 501.
\<close>

theorem ceiling_counterexample:
  "generate_with_key 500 (replicate 499 (Returns [ImagePart]) @ [Returns [ImagePart, ImagePart]])
     = Some 501 \<and> \<not> (501::nat) \<le> 500"
  using overshoot_501 by simp

subsection \<open>C10: the position in the checkpoint\<close>




end
